theory Spec2Isabelle
  imports Main "HOL-Library.AList"
begin

section \<open>Data model\<close>

text \<open>
  The solver of \<^verbatim>\<open>generate.py\<close> works on the classes \<^verbatim>\<open>Variable\<close> and
  \<^verbatim>\<open>Crossword\<close> of the module \<^verbatim>\<open>crossword\<close>. A \<^verbatim>\<open>Variable\<close> is a slot
  of the grid: the row and column of its first cell, its direction and its length.
\<close>

datatype direction = ACROSS | DOWN

datatype variable =
  Variable (variable_i: int) (variable_j: int) (variable_direction: direction) (variable_length: int)

text \<open>
  Python's exceptions are values. \<^verbatim>\<open>KeyError\<close>: a dictionary has no such key;
  \<^verbatim>\<open>IndexError\<close>: a string is read past its end, or \<^verbatim>\<open>random.choice\<close> is given an
  empty sequence; \<^verbatim>\<open>TypeError\<close>: the overlap of two variables is \<^verbatim>\<open>None\<close> and is
  unpacked as a pair.
\<close>

datatype error = KeyError | IndexError | TypeError

text \<open>
  The class \<^verbatim>\<open>Crossword\<close> is not part of \<^verbatim>\<open>generate.py\<close>; the solver reads four of
  its members, which are the fields of this record. Python's sets are lists without
  repetition, in the order in which the set is iterated. \<^verbatim>\<open>overlaps\<close> is a dictionary
  from pairs of variables to \<^verbatim>\<open>None\<close> or a pair of indices: the outer \<open>option\<close> is the
  presence of the key, the inner one is Python's \<^verbatim>\<open>None\<close>. The indices are positions in
  a word, counted from 0.
\<close>

record crossword =
  variables :: "variable list"
  words :: "string list"
  overlaps :: "variable \<times> variable \<Rightarrow> (nat \<times> nat) option option"
  neighbors :: "variable \<Rightarrow> variable list"

text \<open>
  Dictionaries keep the order of insertion, and the order decides which arc \<^verbatim>\<open>ac3\<close>
  revises first and which entry \<^verbatim>\<open>consistent\<close> rejects first, so a dictionary is an
  association list: \<open>map_of\<close> reads a key, \<open>AList.update\<close> writes one (in place when
  the key is there, at the end when it is new).
\<close>

type_synonym domains = "(variable \<times> string list) list"

type_synonym assignment = "(variable \<times> string) list"

text \<open>The object \<^verbatim>\<open>CrosswordCreator\<close>: its two attributes.\<close>

record creator =
  crossword :: crossword
  domains :: domains

text \<open>\<^verbatim>\<open>__init__\<close>: every variable starts with a copy of the whole vocabulary.\<close>

definition init :: "crossword \<Rightarrow> creator" where
  "init cw = \<lparr>crossword = cw, domains = map (\<lambda>var. (var, words cw)) (variables cw)\<rparr>"

section \<open>Node consistency\<close>

text \<open>
  \<^verbatim>\<open>enforce_node_consistency\<close> builds a new dictionary with, for every key, the set of
  the words of its domain whose length is the variable's; \<^verbatim>\<open>set(...)\<close> drops
  repetitions.
\<close>

definition enforce_node_consistency :: "creator \<Rightarrow> creator" where
  "enforce_node_consistency s =
     s\<lparr>domains :=
         map (\<lambda>(val, domain). (val, remdups (filter (\<lambda>x. int (length x) = variable_length val) domain)))
           (domains s)\<rparr>"

section \<open>Arc consistency\<close>

text \<open>
  The list comprehension of \<^verbatim>\<open>revise\<close>: the words of \<^verbatim>\<open>domain_y\<close> whose letter at
  \<^verbatim>\<open>y_i\<close> is the letter of \<^verbatim>\<open>word_x\<close> at \<^verbatim>\<open>x_i\<close>. Each comparison reads both
  letters, and a read past the end of a word raises \<^verbatim>\<open>IndexError\<close>.
\<close>

fun compatible_words :: "nat \<Rightarrow> nat \<Rightarrow> string \<Rightarrow> string list \<Rightarrow> error + string list" where
  "compatible_words x_i y_i word_x [] = Inr []"
| "compatible_words x_i y_i word_x (word_y # rest) =
     (if x_i < length word_x \<and> y_i < length word_y then
        (case compatible_words x_i y_i word_x rest of
           Inl e \<Rightarrow> Inl e
         | Inr ws \<Rightarrow> Inr (if word_x ! x_i = word_y ! y_i then word_y # ws else ws))
      else Inl IndexError)"

text \<open>The loop of \<^verbatim>\<open>revise\<close> over \<^verbatim>\<open>domain_x\<close>, building \<^verbatim>\<open>new_domain_x\<close>.\<close>

fun revise_loop :: "nat \<Rightarrow> nat \<Rightarrow> string list \<Rightarrow> string list \<Rightarrow> error + string list" where
  "revise_loop x_i y_i domain_y [] = Inr []"
| "revise_loop x_i y_i domain_y (word_x # rest) =
     (case compatible_words x_i y_i word_x domain_y of
        Inl e \<Rightarrow> Inl e
      | Inr compatible \<Rightarrow>
          (case revise_loop x_i y_i domain_y rest of
             Inl e \<Rightarrow> Inl e
           | Inr new_domain_x \<Rightarrow>
               Inr (if length compatible \<noteq> 0 then word_x # new_domain_x else new_domain_x)))"

text \<open>
  \<^verbatim>\<open>revise\<close> reads both domains and the overlap of the pair, stores the new domain of
  \<^verbatim>\<open>x\<close> and answers whether its length differs from the old one. An exception leaves
  the object as it was.
\<close>

definition revise :: "creator \<Rightarrow> variable \<Rightarrow> variable \<Rightarrow> error + (bool \<times> creator)" where
  "revise s x y =
     (case map_of (domains s) x of
        None \<Rightarrow> Inl KeyError
      | Some domain_x \<Rightarrow>
          (case map_of (domains s) y of
             None \<Rightarrow> Inl KeyError
           | Some domain_y \<Rightarrow>
               (case overlaps (crossword s) (x, y) of
                  None \<Rightarrow> Inl KeyError
                | Some None \<Rightarrow> Inl TypeError
                | Some (Some (x_i, y_i)) \<Rightarrow>
                    (case revise_loop x_i y_i domain_y domain_x of
                       Inl e \<Rightarrow> Inl e
                     | Inr new_domain_x \<Rightarrow>
                         Inr (length new_domain_x \<noteq> length domain_x,
                              s\<lparr>domains := AList.update x new_domain_x (domains s)\<rparr>)))))"

text \<open>
  The loop of \<^verbatim>\<open>ac3\<close> on its queue. Nothing in its text bounds the number of rounds, so
  the loop is a partial function: \<open>None\<close> is a run that never ends, \<open>Some (Inl e)\<close>
  an exception, \<open>Some (Inr (b, s))\<close> the returned boolean and the object after the run.
\<close>

partial_function (option) ac3_loop ::
  "creator \<Rightarrow> (variable \<times> variable) list \<Rightarrow> (error + bool \<times> creator) option" where
  "ac3_loop s queue =
     (case queue of
        [] \<Rightarrow> Some (Inr (True, s))
      | (x, y) # rest \<Rightarrow>
          (case revise s x y of
             Inl e \<Rightarrow> Some (Inl e)
           | Inr (revised, s') \<Rightarrow>
               if revised then
                 (case map_of (domains s') x of
                    None \<Rightarrow> Some (Inl KeyError)
                  | Some domain_x \<Rightarrow>
                      if length domain_x = 0 then Some (Inr (False, s'))
                      else ac3_loop s' (rest @ map (\<lambda>neighbor. (x, neighbor)) (neighbors (crossword s') x)))
               else ac3_loop s' rest))"

declare ac3_loop.simps [code]

text \<open>
  \<^verbatim>\<open>ac3\<close>: without a list of arcs, one arc for every key of the domains and every
  neighbour of it.
\<close>

definition all_arcs :: "creator \<Rightarrow> (variable \<times> variable) list" where
  "all_arcs s =
     concat (map (\<lambda>x. map (\<lambda>y. (x, y)) (neighbors (crossword s) x)) (map fst (domains s)))"

definition ac3 ::
  "creator \<Rightarrow> (variable \<times> variable) list option \<Rightarrow> (error + bool \<times> creator) option" where
  "ac3 s arcs = ac3_loop s (case arcs of None \<Rightarrow> all_arcs s | Some given \<Rightarrow> given)"

section \<open>Consistency and completeness of an assignment\<close>

text \<open>
  \<^verbatim>\<open>assignment_complete\<close>: every variable of the crossword is a key of the assignment.
\<close>

definition assignment_complete :: "creator \<Rightarrow> assignment \<Rightarrow> bool" where
  "assignment_complete s a = list_all (\<lambda>var. var \<in> set (map fst a)) (variables (crossword s))"

text \<open>
  The inner loop of \<^verbatim>\<open>consistent\<close>, over the neighbours of \<^verbatim>\<open>var\<close>. The result
  \<open>Inr False\<close> is the \<^verbatim>\<open>return False\<close> of the loop, \<open>Inr True\<close> its normal end.
  \<^verbatim>\<open>assignment[neighbor]\<close> raises \<^verbatim>\<open>KeyError\<close> when the neighbour is not a key. The
  values of an assignment are words, never \<^verbatim>\<open>None\<close>, so the test
  \<^verbatim>\<open>neighbor_word == None\<close> that follows the lookup is false whenever it is reached and
  has no branch here. Then the overlap of the pair is read and unpacked, and the two
  letters are read and compared.
\<close>

fun check_neighbors ::
  "creator \<Rightarrow> assignment \<Rightarrow> variable \<Rightarrow> string \<Rightarrow> variable list \<Rightarrow> error + bool" where
  "check_neighbors s a var word [] = Inr True"
| "check_neighbors s a var word (neighbor # rest) =
     (case map_of a neighbor of
        None \<Rightarrow> Inl KeyError
      | Some neighbor_word \<Rightarrow>
          (case overlaps (crossword s) (var, neighbor) of
             None \<Rightarrow> Inl KeyError
           | Some None \<Rightarrow> Inl TypeError
           | Some (Some (var_i, neighbor_i)) \<Rightarrow>
               if var_i < length word \<and> neighbor_i < length neighbor_word then
                 (if word ! var_i \<noteq> neighbor_word ! neighbor_i then Inr False
                  else check_neighbors s a var word rest)
               else Inl IndexError))"

text \<open>
  The outer loop of \<^verbatim>\<open>consistent\<close>, over the entries of the assignment in their order,
  with the list \<^verbatim>\<open>present_words\<close> of the words seen so far.
\<close>

fun consistent_loop ::
  "creator \<Rightarrow> assignment \<Rightarrow> string list \<Rightarrow> (variable \<times> string) list \<Rightarrow> error + bool" where
  "consistent_loop s a present_words [] = Inr True"
| "consistent_loop s a present_words ((var, word) # rest) =
     (if word \<in> set present_words \<or> int (length word) \<noteq> variable_length var then Inr False
      else
        (case check_neighbors s a var word (neighbors (crossword s) var) of
           Inl e \<Rightarrow> Inl e
         | Inr ok \<Rightarrow>
             if ok then consistent_loop s a (present_words @ [word]) rest else Inr False))"

definition consistent :: "creator \<Rightarrow> assignment \<Rightarrow> error + bool" where
  "consistent s a = consistent_loop s a [] a"

section \<open>The two heuristics\<close>

text \<open>
  \<^verbatim>\<open>random.choice\<close> is the only source of randomness. The generator is the sequence of
  the numbers it will give: a choice takes the first one, reduced modulo the length of
  the sequence to choose from, and leaves the rest. On an empty sequence
  \<^verbatim>\<open>random.choice\<close> raises \<^verbatim>\<open>IndexError\<close>.
\<close>

type_synonym rng = "nat \<Rightarrow> nat"

definition random_choice :: "rng \<Rightarrow> 'a list \<Rightarrow> error + ('a \<times> rng)" where
  "random_choice g seq =
     (if seq = [] then Inl IndexError
      else Inr (seq ! (g 0 mod length seq), \<lambda>n. g (Suc n)))"

text \<open>
  The loop of \<^verbatim>\<open>order_domain_values\<close> over the neighbours of \<^verbatim>\<open>var\<close>:
  \<^verbatim>\<open>best_value\<close> is a dictionary from the words of the domain to a count, and the count
  of a word goes up by one for every assigned neighbour that holds this very word.
\<close>

fun count_neighbor_words ::
  "assignment \<Rightarrow> (string \<times> nat) list \<Rightarrow> variable list \<Rightarrow> (string \<times> nat) list" where
  "count_neighbor_words a best_value [] = best_value"
| "count_neighbor_words a best_value (neighbor # rest) =
     (case map_of a neighbor of
        None \<Rightarrow> count_neighbor_words a best_value rest
      | Some neighbor_word \<Rightarrow>
          (case map_of best_value neighbor_word of
             None \<Rightarrow> count_neighbor_words a best_value rest
           | Some n \<Rightarrow>
               count_neighbor_words a (AList.update neighbor_word (n + 1) best_value) rest))"

text \<open>
  \<^verbatim>\<open>order_domain_values\<close>: the words of the domain, sorted by their count;
  \<^verbatim>\<open>list.sort\<close> is stable, as \<open>sort_key\<close> is.
\<close>

definition order_domain_values :: "creator \<Rightarrow> variable \<Rightarrow> assignment \<Rightarrow> error + string list" where
  "order_domain_values s var a =
     (case map_of (domains s) var of
        None \<Rightarrow> Inl KeyError
      | Some domain \<Rightarrow>
          (let best_value = fold (\<lambda>value bv. AList.update value 0 bv) domain [];
               counted = count_neighbor_words a best_value (neighbors (crossword s) var)
           in Inr (map fst (sort_key snd counted))))"

text \<open>
  The dictionary \<^verbatim>\<open>number_of_values_by_domains\<close> of \<^verbatim>\<open>select_unassigned_variable\<close>:
  the size of the domain of every variable without a word. \<^verbatim>\<open>self.domains[variable]\<close>
  raises \<^verbatim>\<open>KeyError\<close> for a variable without a domain.
\<close>

fun domain_sizes :: "domains \<Rightarrow> variable list \<Rightarrow> error + (variable \<times> nat) list" where
  "domain_sizes d [] = Inr []"
| "domain_sizes d (variable # rest) =
     (case map_of d variable of
        None \<Rightarrow> Inl KeyError
      | Some domain \<Rightarrow>
          (case domain_sizes d rest of
             Inl e \<Rightarrow> Inl e
           | Inr sizes \<Rightarrow> Inr ((variable, length domain) # sizes)))"

text \<open>
  \<^verbatim>\<open>select_unassigned_variable\<close>, line by line. Python's \<^verbatim>\<open>min\<close> is \<open>min_list\<close>; it
  is evaluated inside the comprehensions only, once for every element, so it is never
  applied to an empty collection. The degree of a variable is the number of its
  neighbours.
\<close>

definition select_unassigned_variable ::
  "creator \<Rightarrow> assignment \<Rightarrow> rng \<Rightarrow> error + (variable \<times> rng)" where
  "select_unassigned_variable s a g =
     (let remaining_variables =
            filter (\<lambda>variable. variable \<notin> set (map fst a)) (variables (crossword s))
      in case domain_sizes (domains s) remaining_variables of
           Inl e \<Rightarrow> Inl e
         | Inr number_of_values_by_domains \<Rightarrow>
             (let remaining_variables_min_remaining_values =
                    map fst (filter (\<lambda>(variable, n). n = min_list (map snd number_of_values_by_domains))
                               number_of_values_by_domains)
              in if length remaining_variables = 1 then
                   (case remaining_variables_min_remaining_values of
                      [] \<Rightarrow> Inl IndexError
                    | first # _ \<Rightarrow> Inr (first, g))
                 else
                   (let degree = (\<lambda>variable. length (neighbors (crossword s) variable));
                        remaining_min_degree =
                          filter (\<lambda>variable. degree variable =
                                    min_list (map degree remaining_variables_min_remaining_values))
                            remaining_variables_min_remaining_values
                    in random_choice g remaining_min_degree)))"

section \<open>Backtracking search\<close>

text \<open>
  The loop of \<^verbatim>\<open>backtrack\<close> over \<^verbatim>\<open>possible_values\<close>: \<open>f\<close> is the recursive call on
  the assignment extended by one value. The first result that is not \<^verbatim>\<open>None\<close> is
  returned; when the values are exhausted the function ends without a \<^verbatim>\<open>return\<close>,
  which gives \<^verbatim>\<open>None\<close>. The generator goes from one call to the next.
\<close>

fun first_result ::
  "('v \<Rightarrow> rng \<Rightarrow> error + ('r option \<times> rng)) \<Rightarrow> 'v list \<Rightarrow> rng \<Rightarrow> error + ('r option \<times> rng)" where
  "first_result f [] g = Inr (None, g)"
| "first_result f (v # vs) g =
     (case f v g of
        Inl e \<Rightarrow> Inl e
      | Inr (None, g') \<Rightarrow> first_result f vs g'
      | Inr (Some r, g') \<Rightarrow> Inr (Some r, g'))"

lemma first_result_cong [fundef_cong]:
  assumes "vs = vs'" "g = g'" "\<And>v h. v \<in> set vs' \<Longrightarrow> f v h = f' v h"
  shows "first_result f vs g = first_result f' vs' g'"
  unfolding assms(1,2) using assms(3)
  by (induction vs' arbitrary: g') (auto split: sum.splits option.splits)

text \<open>
  The variables without a word; \<^verbatim>\<open>remaining_variables\<close> in
  \<^verbatim>\<open>select_unassigned_variable\<close>. Their number decreases with every recursive call of
  \<^verbatim>\<open>backtrack\<close>.
\<close>

definition unassigned :: "creator \<Rightarrow> assignment \<Rightarrow> variable list" where
  "unassigned s a = filter (\<lambda>variable. variable \<notin> set (map fst a)) (variables (crossword s))"

lemma domain_sizes_keys: "domain_sizes d vs = Inr sizes \<Longrightarrow> map fst sizes = vs"
  by (induction vs arbitrary: sizes) (auto split: option.splits sum.splits)

lemma random_choice_mem: "random_choice g seq = Inr (v, g') \<Longrightarrow> v \<in> set seq"
  by (auto simp: random_choice_def split: if_splits)

lemma select_unassigned_variable_remaining:
  assumes "select_unassigned_variable s a g = Inr (var, g')"
  shows "var \<in> set (variables (crossword s)) \<and> var \<notin> set (map fst a)"
proof -
  let ?rem = "filter (\<lambda>variable. variable \<notin> set (map fst a)) (variables (crossword s))"
  from assms obtain sizes where sizes: "domain_sizes (domains s) ?rem = Inr sizes"
    by (auto simp: select_unassigned_variable_def Let_def split: sum.splits)
  let ?mrv = "map fst (filter (\<lambda>(variable, n). n = min_list (map snd sizes)) sizes)"
  have "set ?mrv \<subseteq> set (map fst sizes)"
    by auto
  then have sub: "set ?mrv \<subseteq> set ?rem"
    by (simp only: domain_sizes_keys [OF sizes])
  have "var \<in> set ?mrv"
  proof (cases "length ?rem = 1")
    case True
    with assms sizes obtain others where "?mrv = var # others"
      unfolding select_unassigned_variable_def Let_def
      by (simp split: list.splits)
    then show ?thesis
      by (metis list.set_intros(1))
  next
    case False
    with assms sizes obtain cands where
      "random_choice g cands = Inr (var, g')" and "set cands \<subseteq> set ?mrv"
      by (auto simp: select_unassigned_variable_def Let_def)
    then show ?thesis
      using random_choice_mem by fastforce
  qed
  with sub show ?thesis by auto
qed

text \<open>
  \<^verbatim>\<open>backtrack\<close>. \<^verbatim>\<open>assignment.copy()\<close> followed by the store of one new key is
  \<open>AList.update\<close> on the assignment, which is not changed itself.
\<close>

function backtrack :: "creator \<Rightarrow> assignment \<Rightarrow> rng \<Rightarrow> error + (assignment option \<times> rng)" where
  "backtrack s a g =
     (if assignment_complete s a then
        (case consistent s a of
           Inl e \<Rightarrow> Inl e
         | Inr ok \<Rightarrow> Inr (if ok then Some a else None, g))
      else
        (case select_unassigned_variable s a g of
           Inl e \<Rightarrow> Inl e
         | Inr (treated_var, g1) \<Rightarrow>
             (case order_domain_values s treated_var a of
                Inl e \<Rightarrow> Inl e
              | Inr possible_values \<Rightarrow>
                  first_result
                    (\<lambda>possible_value. backtrack s (AList.update treated_var possible_value a))
                    possible_values g1)))"
  by pat_completeness auto

lemma unassigned_update_less:
  assumes "var \<in> set (variables (crossword s))" "var \<notin> set (map fst a)"
  shows "length (unassigned s (AList.update var value a)) < length (unassigned s a)"
proof -
  have "unassigned s (AList.update var value a) = filter (\<lambda>v. v \<noteq> var) (unassigned s a)"
    by (auto simp: unassigned_def dom_update intro: filter_cong)
  moreover have "var \<in> set (unassigned s a)"
    using assms by (simp add: unassigned_def)
  ultimately show ?thesis
    by (simp add: length_filter_less)
qed

termination backtrack
proof (relation "measure (\<lambda>(s, a, g). length (unassigned s a))")
  show "wf (measure (\<lambda>(s, a, g). length (unassigned s a)))"
    by simp
next
  fix s a g x2 treated_var g1 x2a possible_value h
  assume "select_unassigned_variable s a g = Inr x2" "(treated_var, g1) = x2"
  then have "select_unassigned_variable s a g = Inr (treated_var, g1)"
    by simp
  from select_unassigned_variable_remaining [OF this]
  show "((s, AList.update treated_var possible_value a, h), s, a, g)
          \<in> measure (\<lambda>(s, a, g). length (unassigned s a))"
    by (simp add: unassigned_update_less)
qed

declare backtrack.simps [simp del]

text \<open>
  \<^verbatim>\<open>solve\<close>: node consistency, then \<^verbatim>\<open>ac3\<close>, whose boolean is dropped, then the
  search from the empty assignment. The result is the returned assignment or \<^verbatim>\<open>None\<close>,
  with the object as \<^verbatim>\<open>ac3\<close> left it.
\<close>

definition solve :: "creator \<Rightarrow> rng \<Rightarrow> (error + assignment option \<times> creator) option" where
  "solve s g =
     (case ac3 (enforce_node_consistency s) None of
        None \<Rightarrow> None
      | Some (Inl e) \<Rightarrow> Some (Inl e)
      | Some (Inr (arc_consistent, s')) \<Rightarrow>
          (case backtrack s' [] g of
             Inl e \<Rightarrow> Some (Inl e)
           | Inr (result, g') \<Rightarrow> Some (Inr (result, s'))))"

section \<open>Well-formed inputs\<close>

text \<open>
  What the solver expects of the class \<^verbatim>\<open>Crossword\<close>: every neighbour of a variable is
  a variable, and the pair has an overlap whose two positions lie inside the two slots.
\<close>

definition slot_model_ok :: "crossword \<Rightarrow> bool" where
  "slot_model_ok cw =
     (\<forall>x \<in> set (variables cw). \<forall>y \<in> set (neighbors cw x).
        y \<in> set (variables cw)
      \<and> (case overlaps cw (x, y) of
           Some (Some (x_i, y_i)) \<Rightarrow> int x_i < variable_length x \<and> int y_i < variable_length y
         | _ \<Rightarrow> False))"

text \<open>
  The state of the domains after \<^verbatim>\<open>enforce_node_consistency\<close>: one entry for every
  variable, holding words of the variable's length only.
\<close>

definition node_consistent :: "creator \<Rightarrow> bool" where
  "node_consistent s =
     (map fst (domains s) = variables (crossword s)
      \<and> (\<forall>(v, ws) \<in> set (domains s). \<forall>w \<in> set ws. int (length w) = variable_length v))"

text \<open>
  The assignments that the search builds: every key is a variable and every word has the
  length of its slot.
\<close>

definition assignment_fits :: "creator \<Rightarrow> assignment \<Rightarrow> bool" where
  "assignment_fits s a =
     (\<forall>(var, word) \<in> set a.
        var \<in> set (variables (crossword s)) \<and> int (length word) = variable_length var)"

section \<open>Example grids\<close>

text \<open>
  Two slots of length 3 that cross: the second cell of the slot across is the first
  cell of the slot down.
\<close>

definition slot_across :: variable where
  "slot_across = Variable 0 0 ACROSS 3"

definition slot_down :: variable where
  "slot_down = Variable 0 1 DOWN 3"

definition cross_overlaps :: "variable \<times> variable \<Rightarrow> (nat \<times> nat) option option" where
  "cross_overlaps p =
     (if p = (slot_across, slot_down) then Some (Some (1, 0))
      else if p = (slot_down, slot_across) then Some (Some (0, 1))
      else None)"

definition cross_neighbors :: "variable \<Rightarrow> variable list" where
  "cross_neighbors v =
     (if v = slot_across then [slot_down] else if v = slot_down then [slot_across] else [])"

definition cross_grid :: crossword where
  "cross_grid =
     \<lparr>variables = [slot_across, slot_down], words = [''CAT'', ''ARE'', ''DOG'', ''NO''],
      overlaps = cross_overlaps, neighbors = cross_neighbors\<rparr>"

definition cross_creator :: creator where
  "cross_creator = enforce_node_consistency (init cross_grid)"

text \<open>The same grid with a vocabulary that has no word of length 3.\<close>

definition short_words_grid :: crossword where
  "short_words_grid = cross_grid\<lparr>words := [''NO'']\<rparr>"

text \<open>
  Three slots of length 3: the slot across in the first row, and two slots down from its
  first and from its last cell. The slot across has two neighbours, each slot down has
  one.
\<close>

definition slot_left :: variable where
  "slot_left = Variable 0 0 DOWN 3"

definition slot_right :: variable where
  "slot_right = Variable 0 2 DOWN 3"

definition corner_overlaps :: "variable \<times> variable \<Rightarrow> (nat \<times> nat) option option" where
  "corner_overlaps p =
     (if p = (slot_across, slot_left) then Some (Some (0, 0))
      else if p = (slot_left, slot_across) then Some (Some (0, 0))
      else if p = (slot_across, slot_right) then Some (Some (2, 0))
      else if p = (slot_right, slot_across) then Some (Some (0, 2))
      else if p = (slot_left, slot_right) \<or> p = (slot_right, slot_left) then Some None
      else None)"

definition corner_neighbors :: "variable \<Rightarrow> variable list" where
  "corner_neighbors v =
     (if v = slot_across then [slot_left, slot_right]
      else if v = slot_left \<or> v = slot_right then [slot_across]
      else [])"

definition corner_grid :: crossword where
  "corner_grid =
     \<lparr>variables = [slot_across, slot_left, slot_right], words = [''CAT'', ''TEN'', ''COW''],
      overlaps = corner_overlaps, neighbors = corner_neighbors\<rparr>"

definition corner_creator :: creator where
  "corner_creator = enforce_node_consistency (init corner_grid)"

text \<open>The measure of the loop of \<^verbatim>\<open>ac3\<close>: the number of words in all domains.\<close>

definition domain_total :: "domains \<Rightarrow> nat" where
  "domain_total d = sum_list (map (\<lambda>(v, ws). length ws) d)"

section \<open>The example grids, evaluated\<close>

lemma slots_differ: "slot_across \<noteq> slot_down" "slot_down \<noteq> slot_across"
  by (simp_all add: slot_across_def slot_down_def)

lemma cross_creator_crossword: "crossword cross_creator = cross_grid"
  by (simp add: cross_creator_def enforce_node_consistency_def init_def)

lemma cross_creator_domains:
  "domains cross_creator =
     [(slot_across, [''CAT'', ''ARE'', ''DOG'']), (slot_down, [''CAT'', ''ARE'', ''DOG''])]"
  by (simp add: cross_creator_def enforce_node_consistency_def init_def cross_grid_def
      slot_across_def slot_down_def)

lemma cross_grid_fields:
  "variables cross_grid = [slot_across, slot_down]"
  "overlaps cross_grid = cross_overlaps"
  "neighbors cross_grid = cross_neighbors"
  by (simp_all add: cross_grid_def)

lemma cross_grid_ok: "slot_model_ok cross_grid"
  by (simp add: slot_model_ok_def cross_grid_fields cross_neighbors_def cross_overlaps_def slots_differ)
    (simp add: slot_across_def slot_down_def)


lemma corner_slots_differ:
  "slot_across \<noteq> slot_left" "slot_across \<noteq> slot_right" "slot_left \<noteq> slot_right"
  "slot_left \<noteq> slot_across" "slot_right \<noteq> slot_across" "slot_right \<noteq> slot_left"
  by (simp_all add: slot_across_def slot_left_def slot_right_def)

lemma corner_creator_domains:
  "domains corner_creator =
     [(slot_across, [''CAT'', ''TEN'', ''COW'']), (slot_left, [''CAT'', ''TEN'', ''COW'']),
      (slot_right, [''CAT'', ''TEN'', ''COW''])]"
  by (simp add: corner_creator_def enforce_node_consistency_def init_def corner_grid_def
      slot_across_def slot_left_def slot_right_def)

lemma corner_creator_crossword: "crossword corner_creator = corner_grid"
  by (simp add: corner_creator_def enforce_node_consistency_def init_def)

lemma corner_grid_fields:
  "variables corner_grid = [slot_across, slot_left, slot_right]"
  "overlaps corner_grid = corner_overlaps"
  "neighbors corner_grid = corner_neighbors"
  by (simp_all add: corner_grid_def)

section \<open>Node consistency: properties\<close>

lemma enforce_node_consistency_keys:
  "map fst (domains (enforce_node_consistency s)) = map fst (domains s)"
  by (simp add: enforce_node_consistency_def case_prod_unfold comp_def)

lemma enforce_node_consistency_lookup:
  "map_of (domains (enforce_node_consistency s)) v =
     map_option (\<lambda>domain. remdups (filter (\<lambda>x. int (length x) = variable_length v) domain))
       (map_of (domains s) v)"
proof -
  have "map_of (map (\<lambda>(val, domain). (val, remdups (filter (\<lambda>x. int (length x) = variable_length val) domain))) d) v =
        map_option (\<lambda>domain. remdups (filter (\<lambda>x. int (length x) = variable_length v) domain)) (map_of d v)"
    for d :: domains
    by (induction d) auto
  then show ?thesis
    by (simp add: enforce_node_consistency_def)
qed

text \<open>
  C8. After \<^verbatim>\<open>enforce_node_consistency\<close>, every word of every entry of the domains has
  the length of the entry's slot. The crossword is untouched, the keys of the domains are
  the same in the same order, and the new domain of a slot holds exactly the words of
  its previous domain that have the slot's length.
\<close>

theorem enforce_node_consistency_lengths:
  "(\<forall>(v, ws) \<in> set (domains (enforce_node_consistency s)). \<forall>w \<in> set ws. int (length w) = variable_length v)
   \<and> crossword (enforce_node_consistency s) = crossword s
   \<and> map fst (domains (enforce_node_consistency s)) = map fst (domains s)
   \<and> (\<forall>v. case map_of (domains s) v of
            None \<Rightarrow> map_of (domains (enforce_node_consistency s)) v = None
          | Some old \<Rightarrow>
              (\<exists>new. map_of (domains (enforce_node_consistency s)) v = Some new
                 \<and> distinct new
                 \<and> set new = {w \<in> set old. int (length w) = variable_length v}))"
proof (intro conjI)
  show "\<forall>(v, ws) \<in> set (domains (enforce_node_consistency s)). \<forall>w \<in> set ws. int (length w) = variable_length v"
    by (auto simp: enforce_node_consistency_def)
  show "crossword (enforce_node_consistency s) = crossword s"
    by (simp add: enforce_node_consistency_def)
  show "map fst (domains (enforce_node_consistency s)) = map fst (domains s)"
    by (rule enforce_node_consistency_keys)
  show "\<forall>v. case map_of (domains s) v of
            None \<Rightarrow> map_of (domains (enforce_node_consistency s)) v = None
          | Some old \<Rightarrow>
              (\<exists>new. map_of (domains (enforce_node_consistency s)) v = Some new
                 \<and> distinct new
                 \<and> set new = {w \<in> set old. int (length w) = variable_length v})"
    by (auto simp: enforce_node_consistency_lookup split: option.splits)
qed

theorem enforce_node_consistency_lengths_witness:
  "list_all (\<lambda>(v, ws). list_all (\<lambda>w. int (length w) = variable_length v) ws)
     (domains (enforce_node_consistency (init cross_grid)))
   \<and> crossword (enforce_node_consistency (init cross_grid)) = cross_grid
   \<and> map fst (domains (enforce_node_consistency (init cross_grid))) = [slot_across, slot_down]
   \<and> domains (enforce_node_consistency (init cross_grid)) =
       [(slot_across, [''CAT'', ''ARE'', ''DOG'']), (slot_down, [''CAT'', ''ARE'', ''DOG''])]"
proof -
  note lengths = enforce_node_consistency_lengths [of "init cross_grid"]
  have "list_all (\<lambda>(v, ws). list_all (\<lambda>w. int (length w) = variable_length v) ws)
     (domains (enforce_node_consistency (init cross_grid)))"
    using lengths by (simp add: list_all_iff case_prod_unfold)
  moreover have "crossword (enforce_node_consistency (init cross_grid)) = cross_grid"
    using lengths by (simp add: init_def)
  moreover have "map fst (domains (enforce_node_consistency (init cross_grid))) = [slot_across, slot_down]"
    using lengths by (simp add: init_def cross_grid_def comp_def)
  moreover have "domains (enforce_node_consistency (init cross_grid)) =
       [(slot_across, [''CAT'', ''ARE'', ''DOG'']), (slot_down, [''CAT'', ''ARE'', ''DOG''])]"
    using cross_creator_domains by (simp only: cross_creator_def)
  ultimately show ?thesis
    by (intro conjI)
qed

section \<open>The revision of one arc\<close>

text \<open>
  The two loops of \<^verbatim>\<open>revise\<close> in closed form: they raise \<^verbatim>\<open>IndexError\<close> exactly when
  both domains have a word and some word is too short for its position of the overlap;
  otherwise the new domain is the old one, filtered.
\<close>

lemma compatible_words_eq:
  "compatible_words x_i y_i word_x domain_y =
     (if domain_y = [] \<or> (x_i < length word_x \<and> (\<forall>word_y \<in> set domain_y. y_i < length word_y))
      then Inr (filter (\<lambda>word_y. word_x ! x_i = word_y ! y_i) domain_y)
      else Inl IndexError)"
  by (induction domain_y) (auto split: sum.splits)

lemma revise_loop_eq:
  "revise_loop x_i y_i domain_y domain_x =
     (if domain_x = [] \<or> domain_y = []
         \<or> ((\<forall>word_x \<in> set domain_x. x_i < length word_x) \<and> (\<forall>word_y \<in> set domain_y. y_i < length word_y))
      then Inr (filter (\<lambda>word_x. \<exists>word_y \<in> set domain_y. word_x ! x_i = word_y ! y_i) domain_x)
      else Inl IndexError)"
proof (induction domain_x)
  case Nil
  then show ?case by simp
next
  case (Cons word_x rest)
  have nonempty: "(filter P domain_y \<noteq> []) = (\<exists>word_y \<in> set domain_y. P word_y)" for P :: "string \<Rightarrow> bool"
    by (simp add: filter_empty_conv)
  show ?case
    using Cons.IH
    by (cases "domain_y = []") (auto simp: compatible_words_eq nonempty filter_empty_conv split: sum.splits if_splits)
qed

lemma revise_Inr:
  assumes "revise s x y = Inr (revised, s')"
  shows "\<exists>domain_x domain_y x_i y_i new_domain_x.
           map_of (domains s) x = Some domain_x \<and> map_of (domains s) y = Some domain_y
         \<and> overlaps (crossword s) (x, y) = Some (Some (x_i, y_i))
         \<and> revise_loop x_i y_i domain_y domain_x = Inr new_domain_x
         \<and> revised = (length new_domain_x \<noteq> length domain_x)
         \<and> s' = s\<lparr>domains := AList.update x new_domain_x (domains s)\<rparr>"
  using assms unfolding revise_def
  by (auto split: option.splits sum.splits prod.splits)

lemma revise_loop_length:
  "revise_loop x_i y_i domain_y domain_x = Inr new_domain_x \<Longrightarrow> length new_domain_x \<le> length domain_x"
  by (auto simp: revise_loop_eq split: if_splits)

lemma revise_crossword: "revise s x y = Inr (revised, s') \<Longrightarrow> crossword s' = crossword s"
  by (drule revise_Inr) auto

lemma revise_unrevised_lookup:
  assumes "revise s x y = Inr (False, s')"
  shows "map_of (domains s') v = None \<longleftrightarrow> map_of (domains s) v = None"
    and "map_of (domains s) v = Some dv \<Longrightarrow> \<exists>dv'. map_of (domains s') v = Some dv' \<and> length dv' = length dv"
proof -
  from revise_Inr [OF assms] obtain domain_x new_domain_x where
    x: "map_of (domains s) x = Some domain_x" and
    same: "length new_domain_x = length domain_x" and
    s': "s' = s\<lparr>domains := AList.update x new_domain_x (domains s)\<rparr>"
    by auto
  show "map_of (domains s') v = None \<longleftrightarrow> map_of (domains s) v = None"
    using x by (simp add: s' update_conv')
  show "\<exists>dv'. map_of (domains s') v = Some dv' \<and> length dv' = length dv"
    if "map_of (domains s) v = Some dv"
    using that x same by (auto simp: s' update_conv')
qed

lemma revise_other_lookup:
  assumes "revise s x y = Inr (revised, s')" "v \<noteq> x"
  shows "map_of (domains s') v = map_of (domains s) v"
  using revise_Inr [OF assms(1)] assms(2) by (auto simp: update_conv')

text \<open>
  C6. For a pair of slots with an overlap, both with a domain whose words reach the
  overlap's positions, \<^verbatim>\<open>revise(x, y)\<close> returns; the new domain of \<open>x\<close> is the old one
  without the words that no word of the domain of \<open>y\<close> agrees with at the overlap, in
  the same order; it is never longer than the old one, and the returned boolean is true
  exactly when it is shorter.
\<close>

theorem revise_removes_unsupported:
  assumes "map_of (domains s) x = Some domain_x"
      and "map_of (domains s) y = Some domain_y"
      and "overlaps (crossword s) (x, y) = Some (Some (x_i, y_i))"
      and "\<forall>w \<in> set domain_x. x_i < length w"
      and "\<forall>w \<in> set domain_y. y_i < length w"
  shows "\<exists>revised s' new_x.
           revise s x y = Inr (revised, s')
         \<and> map_of (domains s') x = Some new_x
         \<and> new_x = filter (\<lambda>w. \<exists>w' \<in> set domain_y. w ! x_i = w' ! y_i) domain_x
         \<and> length new_x \<le> length domain_x
         \<and> (revised \<longleftrightarrow> length new_x < length domain_x)"
proof -
  let ?new = "filter (\<lambda>w. \<exists>w' \<in> set domain_y. w ! x_i = w' ! y_i) domain_x"
  have le: "length ?new \<le> length domain_x"
    by (rule length_filter_le)
  then have neq: "(length ?new \<noteq> length domain_x) = (length ?new < length domain_x)"
    by arith
  have "revise s x y =
          Inr (length ?new \<noteq> length domain_x, s\<lparr>domains := AList.update x ?new (domains s)\<rparr>)"
    using assms by (simp add: revise_def revise_loop_eq)
  then show ?thesis
    using le neq by (simp add: update_conv')
qed


theorem revise_removes_unsupported_witness:
  "\<exists>s'. revise cross_creator slot_across slot_down = Inr (True, s')
       \<and> map_of (domains s') slot_across = Some [''CAT'']"
proof -
  have x: "map_of (domains cross_creator) slot_across = Some [''CAT'', ''ARE'', ''DOG'']"
    by (simp add: cross_creator_domains)
  have y: "map_of (domains cross_creator) slot_down = Some [''CAT'', ''ARE'', ''DOG'']"
    by (simp add: cross_creator_domains slots_differ)
  have ov: "overlaps (crossword cross_creator) (slot_across, slot_down) = Some (Some (1, 0))"
    by (simp add: cross_creator_crossword cross_grid_fields cross_overlaps_def)
  have lx: "\<forall>w \<in> set [''CAT'', ''ARE'', ''DOG'']. 1 < length w"
    by simp
  have ly: "\<forall>w \<in> set [''CAT'', ''ARE'', ''DOG'']. 0 < length w"
    by simp
  show ?thesis
    using revise_removes_unsupported [OF x y ov lx ly] by auto
qed

text \<open>
  C10. A call \<^verbatim>\<open>revise(x, y)\<close> that returns leaves the crossword as it was, keeps the keys
  of the domains in their order, and leaves the domain of every slot other than \<open>x\<close>
  (the one of \<open>y\<close> among them) as it was.
\<close>

theorem revise_frame:
  assumes "revise s x y = Inr (revised, s')"
  shows "crossword s' = crossword s
       \<and> map fst (domains s') = map fst (domains s)
       \<and> (\<forall>z. z \<noteq> x \<longrightarrow> map_of (domains s') z = map_of (domains s) z)"
proof -
  from revise_Inr [OF assms] obtain domain_x new_domain_x where
    x: "map_of (domains s) x = Some domain_x" and
    s': "s' = s\<lparr>domains := AList.update x new_domain_x (domains s)\<rparr>"
    by blast
  from x have "x \<in> set (map fst (domains s))"
    by (metis map_of_eq_None_iff option.distinct(1) set_map)
  then show ?thesis
    by (simp add: s' update_keys update_conv')
qed

theorem revise_frame_witness:
  "\<exists>s'. revise cross_creator slot_across slot_down = Inr (True, s')
       \<and> crossword s' = cross_grid
       \<and> map fst (domains s') = [slot_across, slot_down]
       \<and> map_of (domains s') slot_down = Some [''CAT'', ''ARE'', ''DOG'']"
proof -
  have "revise cross_creator slot_across slot_down =
          Inr (True, cross_creator\<lparr>domains := AList.update slot_across [''CAT''] (domains cross_creator)\<rparr>)"
    by (simp add: revise_def cross_creator_domains cross_creator_crossword cross_grid_fields
        cross_overlaps_def slots_differ)
  then show ?thesis
    using revise_frame [of cross_creator slot_across slot_down True]
    by (auto simp: cross_creator_domains cross_creator_crossword slots_differ)
qed



section \<open>Arc consistency: the loop\<close>

text \<open>
  A call of \<^verbatim>\<open>revise\<close> that reports a revision removes at least one word from the
  domains; a call that reports none leaves their number of words as it is.
\<close>

lemma domain_total_update:
  "map_of d x = Some old \<Longrightarrow>
     domain_total (AList.update x new d) + length old = domain_total d + length new"
  by (induction d) (auto simp: domain_total_def split: if_splits)

lemma revise_total:
  assumes "revise s x y = Inr (revised, s')"
  shows "if revised then domain_total (domains s') < domain_total (domains s)
         else domain_total (domains s') = domain_total (domains s)"
proof -
  from revise_Inr [OF assms] obtain domain_x domain_y x_i y_i new_domain_x where
    x: "map_of (domains s) x = Some domain_x" and
    loop: "revise_loop x_i y_i domain_y domain_x = Inr new_domain_x" and
    revised: "revised = (length new_domain_x \<noteq> length domain_x)" and
    s': "s' = s\<lparr>domains := AList.update x new_domain_x (domains s)\<rparr>"
    by blast
  from domain_total_update [OF x, of new_domain_x] revise_loop_length [OF loop]
  show ?thesis
    by (auto simp: revised s')
qed

text \<open>
  The loop unfolded once, and the induction that its termination gives: to prove a
  property of the loop on every object and queue, prove it for the empty queue, and for
  a queue with a first arc from the property for the object and the queue of the next
  round.
\<close>

lemma ac3_loop_Nil: "ac3_loop s [] = Some (Inr (True, s))"
  by (subst ac3_loop.simps) simp

lemma ac3_loop_Cons:
  "ac3_loop s ((x, y) # rest) =
     (case revise s x y of
        Inl e \<Rightarrow> Some (Inl e)
      | Inr (revised, s') \<Rightarrow>
          if revised then
            (case map_of (domains s') x of
               None \<Rightarrow> Some (Inl KeyError)
             | Some domain_x \<Rightarrow>
                 if length domain_x = 0 then Some (Inr (False, s'))
                 else ac3_loop s' (rest @ map (\<lambda>neighbor. (x, neighbor)) (neighbors (crossword s') x)))
          else ac3_loop s' rest)"
  by (subst ac3_loop.simps) simp

lemma ac3_loop_induct [case_names Nil Cons]:
  assumes empty: "\<And>s. P s []"
      and step: "\<And>s x y rest.
             (\<And>s'. revise s x y = Inr (False, s') \<Longrightarrow> P s' rest) \<Longrightarrow>
             (\<And>s'. revise s x y = Inr (True, s') \<Longrightarrow>
                 P s' (rest @ map (\<lambda>neighbor. (x, neighbor)) (neighbors (crossword s') x))) \<Longrightarrow>
             P s ((x, y) # rest)"
  shows "P s queue"
proof -
  have "wf (measures [\<lambda>(s, queue). domain_total (domains s), \<lambda>(s, queue). length queue])"
    by simp
  then show ?thesis
  proof (induction "(s, queue)" arbitrary: s queue rule: wf_induct_rule)
    case less
    show ?case
    proof (cases queue)
      case Nil
      then show ?thesis
        by (simp add: empty)
    next
      case (Cons arc rest)
      obtain x y where arc: "arc = (x, y)"
        by (cases arc)
      have "P s ((x, y) # rest)"
      proof (rule step)
        fix s'
        assume "revise s x y = Inr (False, s')"
        from revise_total [OF this] show "P s' rest"
          by (intro less) (simp add: Cons)
      next
        fix s'
        assume "revise s x y = Inr (True, s')"
        from revise_total [OF this]
        show "P s' (rest @ map (\<lambda>neighbor. (x, neighbor)) (neighbors (crossword s') x))"
          by (intro less) simp
      qed
      then show ?thesis
        by (simp add: Cons arc)
    qed
  qed
qed

lemma ac3_loop_crossword:
  "ac3_loop s queue = Some (Inr (b, s')) \<Longrightarrow> crossword s' = crossword s"
proof (induction s queue rule: ac3_loop_induct)
  case (Nil s)
  then show ?case
    by (simp add: ac3_loop_Nil)
next
  case (Cons s x y rest)
  from Cons.prems obtain revised s1 where r: "revise s x y = Inr (revised, s1)"
    by (auto simp: ac3_loop_Cons split: sum.splits)
  have "crossword s' = crossword s1"
    using Cons.prems Cons.IH [of s1] r
    by (cases revised) (auto simp: ac3_loop_Cons split: if_splits option.splits)
  with revise_crossword [OF r] show ?case
    by simp
qed

text \<open>
  On a well-formed crossword with node-consistent domains, and a queue of arcs from
  variables to their neighbours, no call of \<^verbatim>\<open>revise\<close> raises an exception, and the
  domains stay node-consistent: \<^verbatim>\<open>ac3\<close> returns a boolean.
\<close>

lemma node_consistent_enforce_keys:
  "map fst (domains s) = variables (crossword s) \<Longrightarrow> node_consistent (enforce_node_consistency s)"
  by (auto simp: node_consistent_def enforce_node_consistency_def comp_def case_prod_unfold)

lemma node_consistent_lookup:
  assumes "node_consistent s" "v \<in> set (variables (crossword s))"
  shows "\<exists>ws. map_of (domains s) v = Some ws \<and> (\<forall>w \<in> set ws. int (length w) = variable_length v)"
proof -
  from assms have "v \<in> fst ` set (domains s)"
    by (metis node_consistent_def set_map)
  then obtain ws where ws: "map_of (domains s) v = Some ws"
    by (metis domIff dom_map_of_conv_image_fst not_None_eq)
  from map_of_SomeD [OF this] assms(1) show ?thesis
    using ws by (auto simp: node_consistent_def)
qed

lemma set_update_subset: "set (AList.update k v al) \<subseteq> insert (k, v) (set al)"
  by (induction al) auto

lemma revise_node_consistent:
  assumes ok: "slot_model_ok (crossword s)" and nc: "node_consistent s"
      and x: "x \<in> set (variables (crossword s))" and y: "y \<in> set (neighbors (crossword s) x)"
  shows "\<exists>revised s'. revise s x y = Inr (revised, s') \<and> node_consistent s'"
proof -
  from ok x y obtain x_i y_i where
    y': "y \<in> set (variables (crossword s))" and
    ov: "overlaps (crossword s) (x, y) = Some (Some (x_i, y_i))" and
    ix: "int x_i < variable_length x" and iy: "int y_i < variable_length y"
  proof -
    from ok x y have "y \<in> set (variables (crossword s))
      \<and> (case overlaps (crossword s) (x, y) of
           Some (Some (x_i, y_i)) \<Rightarrow> int x_i < variable_length x \<and> int y_i < variable_length y
         | _ \<Rightarrow> False)"
      unfolding slot_model_ok_def by blast
    with that show ?thesis
      by (cases "overlaps (crossword s) (x, y)") (auto split: option.splits)
  qed
  from node_consistent_lookup [OF nc x] obtain domain_x where
    dx: "map_of (domains s) x = Some domain_x" "\<forall>w \<in> set domain_x. int (length w) = variable_length x"
    by blast
  from node_consistent_lookup [OF nc y'] obtain domain_y where
    dy: "map_of (domains s) y = Some domain_y" "\<forall>w \<in> set domain_y. int (length w) = variable_length y"
    by blast
  let ?new = "filter (\<lambda>word_x. \<exists>word_y \<in> set domain_y. word_x ! x_i = word_y ! y_i) domain_x"
  have lx: "\<forall>w \<in> set domain_x. x_i < length w"
    using dx(2) ix by auto
  have ly: "\<forall>w \<in> set domain_y. y_i < length w"
    using dy(2) iy by auto
  have r: "revise s x y =
     Inr (length ?new \<noteq> length domain_x, s\<lparr>domains := AList.update x ?new (domains s)\<rparr>)"
    using dx(1) dy(1) ov lx ly by (simp add: revise_def revise_loop_eq)
  have "x \<in> set (map fst (domains s))"
    using dx(1) by (metis map_of_eq_None_iff option.distinct(1) set_map)
  then have keys: "map fst (AList.update x ?new (domains s)) = map fst (domains s)"
    by (simp add: update_keys)
  have "\<forall>w \<in> set ws. int (length w) = variable_length v"
    if "(v, ws) \<in> set (AList.update x ?new (domains s))" for v ws
  proof (cases "(v, ws) = (x, ?new)")
    case True
    with dx(2) show ?thesis
      by simp
  next
    case False
    with that set_update_subset [of x ?new "domains s"] have "(v, ws) \<in> set (domains s)"
      by blast
    with nc show ?thesis
      unfolding node_consistent_def by blast
  qed
  moreover have "map fst (domains s) = variables (crossword s)"
    using nc by (simp add: node_consistent_def)
  ultimately have "node_consistent (s\<lparr>domains := AList.update x ?new (domains s)\<rparr>)"
    unfolding node_consistent_def by (auto simp: keys)
  with r show ?thesis
    by blast
qed

lemma ac3_loop_returns:
  assumes "slot_model_ok (crossword s)" "node_consistent s"
      and "\<forall>(x, y) \<in> set queue. x \<in> set (variables (crossword s)) \<and> y \<in> set (neighbors (crossword s) x)"
  shows "\<exists>b s'. ac3_loop s queue = Some (Inr (b, s')) \<and> node_consistent s' \<and> crossword s' = crossword s"
  using assms
proof (induction s queue rule: ac3_loop_induct)
  case (Nil s)
  have "ac3_loop s [] = Some (Inr (True, s))"
    by (rule ac3_loop_Nil)
  with Nil.prems(2) show ?case
    by blast
next
  case (Cons s x y rest)
  from Cons.prems(3) have x: "x \<in> set (variables (crossword s))" and y: "y \<in> set (neighbors (crossword s) x)"
    and rest: "\<forall>(x, y) \<in> set rest. x \<in> set (variables (crossword s)) \<and> y \<in> set (neighbors (crossword s) x)"
    by simp_all
  from revise_node_consistent [OF Cons.prems(1,2) x y] obtain revised s1 where
    r: "revise s x y = Inr (revised, s1)" and nc: "node_consistent s1"
    by blast
  note cw = revise_crossword [OF r]
  have ok1: "slot_model_ok (crossword s1)"
    using Cons.prems(1) by (simp only: cw)
  have rest1: "\<forall>(x, y) \<in> set rest. x \<in> set (variables (crossword s1)) \<and> y \<in> set (neighbors (crossword s1) x)"
    using rest by (simp only: cw)
  have x1: "x \<in> set (variables (crossword s1))"
    using x by (simp only: cw)
  from node_consistent_lookup [OF nc x1] obtain domain_x where dx: "map_of (domains s1) x = Some domain_x"
    by blast
  show ?case
  proof (cases revised)
    case False
    with r have step: "ac3_loop s ((x, y) # rest) = ac3_loop s1 rest"
      by (simp add: ac3_loop_Cons)
    from False r have "revise s x y = Inr (False, s1)"
      by simp
    from Cons.IH(1) [OF this ok1 nc rest1] show ?thesis
      by (simp only: step cw)
  next
    case True
    then have r': "revise s x y = Inr (True, s1)"
      using r by simp
    show ?thesis
    proof (cases "domain_x = []")
      case True
      with r' dx have "ac3_loop s ((x, y) # rest) = Some (Inr (False, s1))"
        by (simp add: ac3_loop_Cons)
      with nc cw show ?thesis
        by blast
    next
      case False
      let ?queue = "rest @ map (\<lambda>neighbor. (x, neighbor)) (neighbors (crossword s1) x)"
      from False r' dx have step: "ac3_loop s ((x, y) # rest) = ac3_loop s1 ?queue"
        by (simp add: ac3_loop_Cons)
      have "\<forall>(x, y) \<in> set ?queue. x \<in> set (variables (crossword s1)) \<and> y \<in> set (neighbors (crossword s1) x)"
        using rest1 x1 by auto
      from Cons.IH(2) [OF r' ok1 nc this] show ?thesis
        by (simp only: step cw)
    qed
  qed
qed

lemma ac3_returns:
  assumes "slot_model_ok (crossword s)" "node_consistent s"
  shows "\<exists>b s'. ac3 s None = Some (Inr (b, s')) \<and> node_consistent s' \<and> crossword s' = crossword s"
  unfolding ac3_def option.case
proof (rule ac3_loop_returns [OF assms])
  show "\<forall>(x, y) \<in> set (all_arcs s). x \<in> set (variables (crossword s)) \<and> y \<in> set (neighbors (crossword s) x)"
    using assms(2) by (auto simp: all_arcs_def node_consistent_def)
qed


text \<open>
  What the answer true does guarantee: a domain that has a word when the loop is entered
  has a word when the loop ends.
\<close>

lemma ac3_loop_True_keeps_nonempty:
  assumes "ac3_loop s queue = Some (Inr (True, s'))"
      and "map_of (domains s) v = Some dv" and "dv \<noteq> []"
  shows "\<exists>dv'. map_of (domains s') v = Some dv' \<and> dv' \<noteq> []"
  using assms
proof (induction s queue arbitrary: dv rule: ac3_loop_induct)
  case (Nil s)
  then show ?case
    by (simp add: ac3_loop_Nil)
next
  case (Cons s x y rest)
  from Cons.prems(1) obtain revised s1 where r: "revise s x y = Inr (revised, s1)"
    by (auto simp: ac3_loop_Cons split: sum.splits)
  show ?case
  proof (cases revised)
    case False
    with r have r': "revise s x y = Inr (False, s1)"
      by simp
    from Cons.prems(1) r' have run: "ac3_loop s1 rest = Some (Inr (True, s'))"
      by (simp add: ac3_loop_Cons)
    from revise_unrevised_lookup(2) [OF r' Cons.prems(2)] Cons.prems(3) obtain dv1 where
      "map_of (domains s1) v = Some dv1" "dv1 \<noteq> []"
      by force
    from Cons.IH(1) [OF r' run this] show ?thesis .
  next
    case True
    with r have r': "revise s x y = Inr (True, s1)"
      by simp
    from Cons.prems(1) r' obtain domain_x where
      dx: "map_of (domains s1) x = Some domain_x" "domain_x \<noteq> []" and
      run: "ac3_loop s1 (rest @ map (\<lambda>neighbor. (x, neighbor)) (neighbors (crossword s1) x)) =
              Some (Inr (True, s'))"
      by (auto simp: ac3_loop_Cons split: option.splits if_splits)
    have "\<exists>dv1. map_of (domains s1) v = Some dv1 \<and> dv1 \<noteq> []"
    proof (cases "v = x")
      case True
      with dx show ?thesis by simp
    next
      case False
      from revise_other_lookup [OF r' False] Cons.prems(2,3) show ?thesis
        by simp
    qed
    then obtain dv1 where "map_of (domains s1) v = Some dv1" "dv1 \<noteq> []"
      by blast
    from Cons.IH(2) [OF r' run this] show ?thesis .
  qed
qed

text \<open>
  C9. \<^verbatim>\<open>ac3\<close> ends on every object and every list of arcs, given or not: it returns
  a boolean or raises an exception, and never runs forever. A round either takes an arc
  off the queue and leaves all domains as they are, or removes at least one word from a
  domain; the number of words in the domains cannot decrease forever.
\<close>

theorem ac3_terminates: "\<exists>r. ac3 s arcs = Some r"
proof -
  have "\<exists>r. ac3_loop s queue = Some r" for queue
  proof (induction s queue rule: ac3_loop_induct)
    case (Nil s)
    show ?case
      by (simp add: ac3_loop_Nil)
  next
    case (Cons s x y rest)
    show ?case
    proof (cases "revise s x y")
      case (Inl e)
      then show ?thesis
        by (simp add: ac3_loop_Cons)
    next
      case (Inr result)
      obtain revised s' where result: "result = (revised, s')"
        by (cases result)
      from Cons [of s'] Inr show ?thesis
        by (cases revised) (auto simp: ac3_loop_Cons result split: option.split)
    qed
  qed
  then show ?thesis
    by (simp add: ac3_def)
qed

text \<open>
  One round of the loop, in full. With an empty queue \<^verbatim>\<open>ac3\<close> returns true. Otherwise
  it takes the first arc \<open>(x, y)\<close> and revises it; when the call empties a domain of
  \<open>x\<close> that had a word, \<^verbatim>\<open>ac3\<close> returns false at once, with the object as that call
  left it; when the call shortens the domain of \<open>x\<close> to a domain that is not empty,
  \<^verbatim>\<open>ac3\<close> goes on with the rest of the queue followed by one arc \<open>(x, neighbor)\<close> for
  every neighbour of \<open>x\<close>, in the order of the neighbours; when the call removes
  nothing, also from a domain that is empty already, it goes on with the rest of the
  queue.
\<close>

lemma ac3_queue_step:
  assumes "revise s x y = Inr (revised, s')"
      and "map_of (domains s) x = Some before"
      and "map_of (domains s') x = Some after"
  shows "ac3 s (Some []) = Some (Inr (True, s))
       \<and> ac3 s (Some ((x, y) # rest)) =
           (if before \<noteq> [] \<and> after = [] then Some (Inr (False, s'))
            else if length after < length before then
              ac3 s' (Some (rest @ map (\<lambda>neighbor. (x, neighbor)) (neighbors (crossword s) x)))
            else ac3 s' (Some rest))"
proof -
  from revise_Inr [OF assms(1)] obtain domain_x domain_y x_i y_i new_domain_x where
    x: "map_of (domains s) x = Some domain_x" and
    loop: "revise_loop x_i y_i domain_y domain_x = Inr new_domain_x" and
    revised: "revised = (length new_domain_x \<noteq> length domain_x)" and
    s': "s' = s\<lparr>domains := AList.update x new_domain_x (domains s)\<rparr>"
    by blast
  have before: "domain_x = before"
    using x assms(2) by simp
  have after: "new_domain_x = after"
    using assms(3) by (simp add: s' update_conv')
  have le: "length after \<le> length before"
    using revise_loop_length [OF loop] by (simp add: before after)
  have cw: "crossword s' = crossword s"
    by (simp add: s')
  have empty: "ac3 s (Some []) = Some (Inr (True, s))"
    unfolding ac3_def by (subst ac3_loop.simps) simp
  have step: "ac3 s (Some ((x, y) # rest)) =
           (if before \<noteq> [] \<and> after = [] then Some (Inr (False, s'))
            else if length after < length before then
              ac3 s' (Some (rest @ map (\<lambda>neighbor. (x, neighbor)) (neighbors (crossword s) x)))
            else ac3 s' (Some rest))"
    unfolding ac3_def
    apply (subst ac3_loop.simps)
    using le by (auto simp: assms revised before after cw)
  from empty step show ?thesis
    by (rule conjI)
qed

lemma ac3_queue_step_example:
  "ac3 cross_creator (Some [(slot_across, slot_down), (slot_down, slot_across)]) =
     ac3 (cross_creator\<lparr>domains := [(slot_across, [''CAT'']), (slot_down, [''CAT'', ''ARE'', ''DOG''])]\<rparr>)
       (Some [(slot_down, slot_across), (slot_across, slot_down)])"
proof -
  let ?s' = "cross_creator\<lparr>domains := [(slot_across, [''CAT'']), (slot_down, [''CAT'', ''ARE'', ''DOG''])]\<rparr>"
  have r: "revise cross_creator slot_across slot_down = Inr (True, ?s')"
    by (simp add: revise_def cross_creator_domains cross_creator_crossword cross_grid_fields
        cross_overlaps_def slots_differ)
  have b: "map_of (domains cross_creator) slot_across = Some [''CAT'', ''ARE'', ''DOG'']"
    by (simp add: cross_creator_domains)
  have a: "map_of (domains ?s') slot_across = Some [''CAT'']"
    by simp
  show ?thesis
    using ac3_queue_step [OF r b a, of "[(slot_down, slot_across)]"]
    by (simp add: cross_creator_crossword cross_grid_fields cross_neighbors_def)
qed


text \<open>
  C7. The queue of \<^verbatim>\<open>ac3\<close> is first in, first out, and the arcs put at its end are
  \<open>(x, neighbor)\<close>; but a call of \<^verbatim>\<open>revise\<close> that leaves the domain of \<open>x\<close> empty does
  not always end \<^verbatim>\<open>ac3\<close> with false. In the crossing grid with a vocabulary without a
  word of length 3, the domain of the slot across is empty; the call of \<^verbatim>\<open>revise\<close> on
  the arc from the slot across to the slot down leaves it empty and reports no revision;
  \<^verbatim>\<open>ac3\<close> does not return there, it goes on with the rest of the queue, whatever it
  is, and with this arc alone in the queue it returns true.
\<close>

theorem ac3_goes_on_after_empty_domain:
  "map_of (domains (enforce_node_consistency (init short_words_grid))) slot_across = Some []
   \<and> revise (enforce_node_consistency (init short_words_grid)) slot_across slot_down =
       Inr (False, enforce_node_consistency (init short_words_grid))
   \<and> ac3 (enforce_node_consistency (init short_words_grid)) (Some ((slot_across, slot_down) # rest)) =
       ac3 (enforce_node_consistency (init short_words_grid)) (Some rest)
   \<and> ac3 (enforce_node_consistency (init short_words_grid)) (Some [(slot_across, slot_down)]) =
       Some (Inr (True, enforce_node_consistency (init short_words_grid)))"
proof -
  let ?s = "enforce_node_consistency (init short_words_grid)"
  have d: "domains ?s = [(slot_across, []), (slot_down, [])]"
    by (simp add: enforce_node_consistency_def init_def short_words_grid_def cross_grid_def
        slot_across_def slot_down_def)
  have c: "crossword ?s = short_words_grid"
    by (simp add: enforce_node_consistency_def init_def)
  have ov: "overlaps short_words_grid = cross_overlaps"
    by (simp add: short_words_grid_def cross_grid_def)
  have same: "?s\<lparr>domains := [(slot_across, []), (slot_down, [])]\<rparr> = ?s"
    using d by simp
  have across: "map_of (domains ?s) slot_across = Some []"
    by (simp add: d)
  have r: "revise ?s slot_across slot_down = Inr (False, ?s)"
    by (simp add: revise_def d c ov cross_overlaps_def slots_differ same)
  have step: "ac3 ?s (Some ((slot_across, slot_down) # queue)) = ac3 ?s (Some queue)" for queue
    by (simp add: ac3_def ac3_loop_Cons r)
  have "ac3 ?s (Some []) = Some (Inr (True, ?s))"
    by (simp add: ac3_def ac3_loop_Nil)
  then have run: "ac3 ?s (Some [(slot_across, slot_down)]) = Some (Inr (True, ?s))"
    by (simp only: step)
  from across r step [of rest] run show ?thesis
    by (intro conjI)
qed

text \<open>
  C3. \<^verbatim>\<open>ac3\<close> can return true while a domain is empty. In the crossing grid with a
  vocabulary without a word of length 3, both domains are empty after node consistency;
  \<^verbatim>\<open>ac3\<close> revises both arcs, no call removes a word, and it returns true with both
  domains empty.
\<close>

theorem ac3_True_with_empty_domain:
  "domains (enforce_node_consistency (init short_words_grid)) = [(slot_across, []), (slot_down, [])]
   \<and> ac3 (enforce_node_consistency (init short_words_grid)) None =
       Some (Inr (True, enforce_node_consistency (init short_words_grid)))"
proof -
  let ?s = "enforce_node_consistency (init short_words_grid)"
  have d: "domains ?s = [(slot_across, []), (slot_down, [])]"
    by (simp add: enforce_node_consistency_def init_def short_words_grid_def cross_grid_def
        slot_across_def slot_down_def)
  have c: "crossword ?s = short_words_grid"
    by (simp add: enforce_node_consistency_def init_def)
  have n: "neighbors short_words_grid = cross_neighbors" "overlaps short_words_grid = cross_overlaps"
    by (simp_all add: short_words_grid_def cross_grid_def)
  have arcs: "all_arcs ?s = [(slot_across, slot_down), (slot_down, slot_across)]"
    by (simp add: all_arcs_def d c n cross_neighbors_def slots_differ)
  have same: "?s\<lparr>domains := [(slot_across, []), (slot_down, [])]\<rparr> = ?s"
    using d by simp
  have r1: "revise ?s slot_across slot_down = Inr (False, ?s)"
    by (simp add: revise_def d c n cross_overlaps_def slots_differ same)
  have r2: "revise ?s slot_down slot_across = Inr (False, ?s)"
    by (simp add: revise_def d c n cross_overlaps_def slots_differ same)
  have "ac3_loop ?s [] = Some (Inr (True, ?s))"
    by (subst ac3_loop.simps) simp
  then have "ac3_loop ?s [(slot_down, slot_across)] = Some (Inr (True, ?s))"
    by (subst ac3_loop.simps) (simp add: r2)
  then have "ac3_loop ?s [(slot_across, slot_down), (slot_down, slot_across)] = Some (Inr (True, ?s))"
    by (subst ac3_loop.simps) (simp add: r1)
  then show ?thesis
    by (simp add: ac3_def arcs d)
qed


section \<open>The consistency predicate\<close>

text \<open>
  C1. \<^verbatim>\<open>consistent\<close> raises \<^verbatim>\<open>KeyError\<close> on a partial assignment in which an assigned
  slot has a neighbour without a word: the slot across has the word CAT, its neighbour,
  the slot down, is not a key of the assignment, and \<^verbatim>\<open>assignment[neighbor]\<close> fails.
\<close>

theorem consistent_unassigned_neighbor_KeyError:
  "map_of [(slot_across, ''CAT'')] slot_down = None
   \<and> neighbors (crossword cross_creator) slot_across = [slot_down]
   \<and> consistent cross_creator [(slot_across, ''CAT'')] = Inl KeyError"
  by (simp add: consistent_def cross_creator_crossword cross_grid_fields cross_neighbors_def
      slots_differ) (simp add: slot_across_def)

text \<open>
  C4. \<^verbatim>\<open>consistent\<close> is true on the empty assignment. On the assignment of the one
  word ARE, of length 3, to the slot down, of length 3, it raises \<^verbatim>\<open>KeyError\<close>: the
  slot has a neighbour, and the neighbour has no word.
\<close>

theorem consistent_single_slot_KeyError:
  "consistent cross_creator [] = Inr True
   \<and> int (length ''ARE'') = variable_length slot_down
   \<and> consistent cross_creator [(slot_down, ''ARE'')] = Inl KeyError"
  by (simp add: consistent_def cross_creator_crossword cross_grid_fields cross_neighbors_def
      slots_differ) (simp add: slot_down_def)

text \<open>
  In general: when the first entry of an assignment has a word of the right length and
  the first neighbour of its slot is not a key, \<^verbatim>\<open>consistent\<close> raises \<^verbatim>\<open>KeyError\<close>.
  On one entry whose slot has no neighbour, and on the empty assignment, it is true.
\<close>

lemma consistent_first_neighbor_unassigned:
  assumes "int (length word) = variable_length var"
      and "neighbors (crossword s) var = neighbor # others"
      and "map_of ((var, word) # rest) neighbor = None"
  shows "consistent s ((var, word) # rest) = Inl KeyError"
  using assms by (simp add: consistent_def)

lemma consistent_no_neighbors:
  assumes "int (length word) = variable_length var"
      and "neighbors (crossword s) var = []"
  shows "consistent s [(var, word)] = Inr True"
  using assms by (simp add: consistent_def)

lemma consistent_empty: "consistent s [] = Inr True"
  by (simp add: consistent_def)

text \<open>
  On a complete assignment of words of the right lengths, over a well-formed crossword,
  \<^verbatim>\<open>consistent\<close> raises no exception.
\<close>

lemma check_neighbors_returns:
  assumes "\<forall>n \<in> set ns. \<exists>nw i j.
             map_of a n = Some nw \<and> overlaps (crossword s) (var, n) = Some (Some (i, j))
           \<and> i < length word \<and> j < length nw"
  shows "\<exists>b. check_neighbors s a var word ns = Inr b"
  using assms by (induction ns) auto

lemma consistent_loop_returns:
  assumes "\<forall>(var, word) \<in> set items. int (length word) = variable_length var \<longrightarrow>
             (\<exists>b. check_neighbors s a var word (neighbors (crossword s) var) = Inr b)"
  shows "\<exists>b. consistent_loop s a present_words items = Inr b"
  using assms
proof (induction items arbitrary: present_words)
  case Nil
  show ?case by auto
next
  case (Cons item rest)
  obtain var word where item: "item = (var, word)"
    by (cases item)
  from Cons.prems have rest: "\<forall>(var, word) \<in> set rest. int (length word) = variable_length var \<longrightarrow>
             (\<exists>b. check_neighbors s a var word (neighbors (crossword s) var) = Inr b)"
    by simp
  note IH = Cons.IH [OF rest]
  show ?case
  proof (cases "word \<in> set present_words \<or> int (length word) \<noteq> variable_length var")
    case True
    then show ?thesis
      by (auto simp: item)
  next
    case False
    with Cons.prems obtain b where b: "check_neighbors s a var word (neighbors (crossword s) var) = Inr b"
      by (auto simp: item)
    from IH [of "present_words @ [word]"] False b show ?thesis
      by (cases b) (auto simp: item)
  qed
qed

lemma consistent_returns:
  assumes ok: "slot_model_ok (crossword s)" and complete: "assignment_complete s a"
      and fits: "assignment_fits s a"
  shows "\<exists>b. consistent s a = Inr b"
  unfolding consistent_def
proof (rule consistent_loop_returns, clarify)
  fix var word
  assume entry: "(var, word) \<in> set a" and len: "int (length word) = variable_length var"
  from fits entry have var: "var \<in> set (variables (crossword s))"
    unfolding assignment_fits_def by blast
  show "\<exists>b. check_neighbors s a var word (neighbors (crossword s) var) = Inr b"
  proof (rule check_neighbors_returns, rule ballI)
    fix n
    assume n: "n \<in> set (neighbors (crossword s) var)"
    from ok var n have n_var: "n \<in> set (variables (crossword s))"
      and "case overlaps (crossword s) (var, n) of
           Some (Some (x_i, y_i)) \<Rightarrow> int x_i < variable_length var \<and> int y_i < variable_length n
         | _ \<Rightarrow> False"
      unfolding slot_model_ok_def by blast+
    then obtain i j where
      ov: "overlaps (crossword s) (var, n) = Some (Some (i, j))" and
      i: "int i < variable_length var" and j: "int j < variable_length n"
      by (cases "overlaps (crossword s) (var, n)") (auto split: option.splits)
    from complete n_var have "n \<in> fst ` set a"
      by (simp add: assignment_complete_def list_all_iff)
    then obtain nw where nw: "map_of a n = Some nw"
      by (metis domIff dom_map_of_conv_image_fst not_None_eq)
    from map_of_SomeD [OF nw] fits have "int (length nw) = variable_length n"
      unfolding assignment_fits_def by blast
    with ov i j len nw
    show "\<exists>nw i j. map_of a n = Some nw \<and> overlaps (crossword s) (var, n) = Some (Some (i, j))
            \<and> i < length word \<and> j < length nw"
      by auto
  qed
qed

text \<open>What a true answer of \<^verbatim>\<open>consistent\<close> means.\<close>

lemma check_neighbors_True:
  "check_neighbors s a var word ns = Inr True \<Longrightarrow>
     \<forall>n \<in> set ns. \<exists>nw i j.
        map_of a n = Some nw \<and> overlaps (crossword s) (var, n) = Some (Some (i, j))
      \<and> i < length word \<and> j < length nw \<and> word ! i = nw ! j"
  by (induction ns) (auto split: option.splits if_splits)

lemma consistent_loop_True:
  "consistent_loop s a present_words items = Inr True \<Longrightarrow>
     distinct (map snd items) \<and> set present_words \<inter> set (map snd items) = {}
   \<and> (\<forall>(var, word) \<in> set items.
         int (length word) = variable_length var
       \<and> check_neighbors s a var word (neighbors (crossword s) var) = Inr True)"
proof (induction items arbitrary: present_words)
  case Nil
  then show ?case by simp
next
  case (Cons item rest)
  obtain var word where item: "item = (var, word)"
    by (cases item)
  from Cons.prems have
    new: "word \<notin> set present_words" and
    len: "int (length word) = variable_length var" and
    nb: "check_neighbors s a var word (neighbors (crossword s) var) = Inr True" and
    tl: "consistent_loop s a (present_words @ [word]) rest = Inr True"
    by (auto simp: item split: if_splits sum.splits)
  from Cons.IH [OF tl] new len nb show ?case
    by (auto simp: item)
qed

lemma check_neighbors_crossword:
  "crossword s = crossword s' \<Longrightarrow> check_neighbors s a var word ns = check_neighbors s' a var word ns"
  by (induction ns) (auto split: option.splits)

lemma consistent_loop_crossword:
  "crossword s = crossword s' \<Longrightarrow>
     consistent_loop s a present_words items = consistent_loop s' a present_words items"
  by (induction items arbitrary: present_words)
    (auto simp: check_neighbors_crossword [of s s'] split: sum.splits)

lemma consistent_crossword:
  "crossword s = crossword s' \<Longrightarrow> consistent s a = consistent s' a"
  by (simp add: consistent_def consistent_loop_crossword [of s s'])

lemma consistent_True:
  assumes "consistent s a = Inr True"
  shows "distinct (map snd a)
       \<and> (\<forall>(var, word) \<in> set a. int (length word) = variable_length var)
       \<and> (\<forall>(var, word) \<in> set a. \<forall>neighbor \<in> set (neighbors (crossword s) var).
            \<exists>neighbor_word var_i neighbor_i.
               map_of a neighbor = Some neighbor_word
             \<and> overlaps (crossword s) (var, neighbor) = Some (Some (var_i, neighbor_i))
             \<and> var_i < length word \<and> neighbor_i < length neighbor_word
             \<and> word ! var_i = neighbor_word ! neighbor_i)"
  using consistent_loop_True [OF assms [unfolded consistent_def]]
  by (auto dest!: check_neighbors_True) 

section \<open>The choice of a variable\<close>

text \<open>
  What \<^verbatim>\<open>select_unassigned_variable\<close> guarantees on every input: the variable it
  returns has no word yet, no variable without a word has a smaller domain, and, unless
  it is the only variable without a word, none of those with a domain of the same size
  has fewer neighbours.
\<close>

lemma domain_sizes_entry:
  assumes "domain_sizes d vs = Inr sizes"
  shows "(v, n) \<in> set sizes \<Longrightarrow> v \<in> set vs \<and> (\<exists>domain. map_of d v = Some domain \<and> n = length domain)"
    and "v \<in> set vs \<Longrightarrow> \<exists>domain. map_of d v = Some domain \<and> (v, length domain) \<in> set sizes"
  using assms
  by (induction vs arbitrary: sizes; fastforce split: option.splits sum.splits)+

lemma min_list_le: "x \<in> set xs \<Longrightarrow> min_list xs \<le> (x :: nat)"
  by (cases "xs = []") (simp_all add: min_list_Min)

lemma select_unassigned_variable_result:
  assumes "select_unassigned_variable s a g = Inr (var, g')"
  shows "var \<in> set (unassigned s a)
       \<and> (\<exists>domain. map_of (domains s) var = Some domain
            \<and> (\<forall>other \<in> set (unassigned s a). \<exists>other_domain.
                  map_of (domains s) other = Some other_domain
                \<and> length domain \<le> length other_domain
                \<and> (length (unassigned s a) \<noteq> 1 \<and> length other_domain = length domain \<longrightarrow>
                     length (neighbors (crossword s) var) \<le> length (neighbors (crossword s) other))))"
proof -
  let ?rem = "unassigned s a"
  from assms obtain sizes where sizes: "domain_sizes (domains s) ?rem = Inr sizes"
    by (auto simp: select_unassigned_variable_def unassigned_def Let_def split: sum.splits)
  note entry = domain_sizes_entry [OF sizes]
  let ?least = "min_list (map snd sizes)"
  let ?mrv = "map fst (filter (\<lambda>(variable, n). n = ?least) sizes)"
  let ?degree = "\<lambda>variable. length (neighbors (crossword s) variable)"
  let ?low = "filter (\<lambda>variable. ?degree variable = min_list (map ?degree ?mrv)) ?mrv"
  have mrv: "var \<in> set ?mrv"
    and low: "length ?rem \<noteq> 1 \<Longrightarrow> var \<in> set ?low"
  proof -
    show "var \<in> set ?mrv"
    proof (cases "length ?rem = 1")
      case True
      with assms sizes obtain others where "?mrv = var # others"
        unfolding select_unassigned_variable_def Let_def unassigned_def
        by (simp split: list.splits)
      then show ?thesis
        by (metis list.set_intros(1))
    next
      case False
      with assms sizes have "random_choice g ?low = Inr (var, g')"
        unfolding select_unassigned_variable_def Let_def unassigned_def
        by simp
      from random_choice_mem [OF this] show ?thesis
        by simp
    qed
    assume "length ?rem \<noteq> 1"
    with assms sizes have "random_choice g ?low = Inr (var, g')"
      unfolding select_unassigned_variable_def Let_def unassigned_def
      by simp
    from random_choice_mem [OF this] show "var \<in> set ?low" .
  qed
  from mrv obtain n where n: "(var, n) \<in> set sizes" "n = ?least"
    by auto
  from entry(1) [OF n(1)] obtain domain where
    var: "var \<in> set ?rem" "map_of (domains s) var = Some domain" "n = length domain"
    by blast
  have "\<exists>other_domain.
          map_of (domains s) other = Some other_domain
        \<and> length domain \<le> length other_domain
        \<and> (length ?rem \<noteq> 1 \<and> length other_domain = length domain \<longrightarrow>
             ?degree var \<le> ?degree other)"
    if other: "other \<in> set ?rem" for other
  proof -
    from entry(2) [OF other] obtain other_domain where
      od: "map_of (domains s) other = Some other_domain" "(other, length other_domain) \<in> set sizes"
      by blast
    from od(2) have "length other_domain \<in> set (map snd sizes)"
      by force
    from min_list_le [OF this] have le: "length domain \<le> length other_domain"
      using n(2) var(3) by simp
    have "?degree var \<le> ?degree other"
      if "length ?rem \<noteq> 1" "length other_domain = length domain"
    proof -
      from od(2) that(2) n(2) var(3) have "other \<in> set ?mrv"
        by force
      then have "min_list (map ?degree ?mrv) \<le> ?degree other"
        by (intro min_list_le) (simp only: set_map image_eqI)
      moreover from low [OF that(1)] have "?degree var = min_list (map ?degree ?mrv)"
        by simp
      ultimately show ?thesis
        by simp
    qed
    with od(1) le show ?thesis
      by blast
  qed
  with var show ?thesis
    by blast
qed

text \<open>
  \<^verbatim>\<open>select_unassigned_variable\<close> returns a variable whenever some variable has no word
  and every such variable has a domain.
\<close>

lemma domain_sizes_returns:
  "\<forall>v \<in> set vs. map_of d v \<noteq> None \<Longrightarrow> \<exists>sizes. domain_sizes d vs = Inr sizes"
  by (induction vs) auto

lemma min_list_mem: "xs \<noteq> [] \<Longrightarrow> min_list xs \<in> set (xs :: nat list)"
  by (simp add: min_list_Min)

lemma filter_min_list_nonempty:
  "xs \<noteq> [] \<Longrightarrow> filter (\<lambda>x. f x = min_list (map f xs)) xs \<noteq> ([] :: 'a list)"
  for f :: "'a \<Rightarrow> nat"
proof -
  assume "xs \<noteq> []"
  then have "min_list (map f xs) \<in> set (map f xs)"
    by (intro min_list_mem) simp
  then obtain x where "x \<in> set xs" "f x = min_list (map f xs)"
    by auto
  then show ?thesis
    by (auto simp: filter_empty_conv)
qed

lemma select_unassigned_variable_returns:
  assumes "unassigned s a \<noteq> []"
      and "\<forall>v \<in> set (unassigned s a). map_of (domains s) v \<noteq> None"
  shows "\<exists>var g'. select_unassigned_variable s a g = Inr (var, g')"
proof -
  let ?rem = "unassigned s a"
  from domain_sizes_returns [OF assms(2)] obtain sizes where
    sizes: "domain_sizes (domains s) ?rem = Inr sizes"
    by blast
  from domain_sizes_keys [OF sizes] assms(1) have "sizes \<noteq> []"
    by auto
  from filter_min_list_nonempty [OF this, of snd]
  have "filter (\<lambda>(variable, n). n = min_list (map snd sizes)) sizes \<noteq> []"
    by (simp add: case_prod_unfold)
  then have mrv: "map fst (filter (\<lambda>(variable, n). n = min_list (map snd sizes)) sizes) \<noteq> []"
    by simp
  let ?mrv = "map fst (filter (\<lambda>(variable, n). n = min_list (map snd sizes)) sizes)"
  let ?degree = "\<lambda>variable. length (neighbors (crossword s) variable)"
  from filter_min_list_nonempty [OF mrv, of ?degree]
  have low: "filter (\<lambda>variable. ?degree variable = min_list (map ?degree ?mrv)) ?mrv \<noteq> []" .
  show ?thesis
  proof (cases "length ?rem = 1")
    case True
    with sizes mrv show ?thesis
      unfolding select_unassigned_variable_def Let_def unassigned_def [symmetric]
      by (simp split: list.splits)
  next
    case False
    with sizes low show ?thesis
      unfolding select_unassigned_variable_def Let_def unassigned_def [symmetric]
      by (simp add: random_choice_def)
  qed
qed


text \<open>
  C2. In the grid of three slots with nothing assigned, the three domains have 3 words
  each; the slot across has 2 neighbours and each slot down has 1.
  \<^verbatim>\<open>select_unassigned_variable\<close> returns one of the two slots down, whatever the random
  choice: among the slots of least domain size it keeps those of least degree, not of
  greatest degree.
\<close>

theorem select_unassigned_variable_min_degree:
  "map (\<lambda>(v, ws). (v, length ws)) (domains corner_creator) =
     [(slot_across, 3), (slot_left, 3), (slot_right, 3)]
   \<and> map (\<lambda>v. (v, length (neighbors (crossword corner_creator) v))) (variables (crossword corner_creator)) =
     [(slot_across, 2), (slot_left, 1), (slot_right, 1)]
   \<and> select_unassigned_variable corner_creator [] g =
       Inr ([slot_left, slot_right] ! (g 0 mod 2), \<lambda>n. g (Suc n))"
  by (simp add: select_unassigned_variable_def random_choice_def corner_creator_domains
      corner_creator_crossword corner_grid_fields corner_neighbors_def corner_slots_differ
      numeral_2_eq_2)

section \<open>The search\<close>

text \<open>
  An assignment that \<^verbatim>\<open>backtrack\<close> returns went through the test of its first lines:
  it is complete and \<^verbatim>\<open>consistent\<close> is true on it.
\<close>

lemma first_result_Some:
  "first_result f vs g = Inr (Some r, g') \<Longrightarrow> \<exists>v \<in> set vs. \<exists>h. f v h = Inr (Some r, g')"
  by (induction vs arbitrary: g) (fastforce split: sum.splits option.splits)+

lemma backtrack_result:
  "backtrack s a g = Inr (Some r, g') \<Longrightarrow> distinct (map fst a) \<Longrightarrow>
     assignment_complete s r \<and> consistent s r = Inr True \<and> distinct (map fst r)"
proof (induction s a g arbitrary: r g' rule: backtrack.induct)
  case (1 s a g)
  show ?case
  proof (cases "assignment_complete s a")
    case True
    with "1.prems" show ?thesis
      by (auto simp: backtrack.simps [of s a g] split: sum.splits if_splits)
  next
    case False
    with "1.prems"(1) obtain treated_var g1 possible_values where
      sel: "select_unassigned_variable s a g = Inr (treated_var, g1)" and
      ord: "order_domain_values s treated_var a = Inr possible_values" and
      fr: "first_result (\<lambda>possible_value. backtrack s (AList.update treated_var possible_value a))
             possible_values g1 = Inr (Some r, g')"
      by (auto simp: backtrack.simps [of s a g] split: sum.splits)
    from first_result_Some [OF fr] obtain possible_value h where
      v: "possible_value \<in> set possible_values" and
      rec: "backtrack s (AList.update treated_var possible_value a) h = Inr (Some r, g')"
      by blast
    have "distinct (map fst (AList.update treated_var possible_value a))"
      using "1.prems"(2) by (rule distinct_update)
    with "1.IH" [OF False sel refl ord v rec] show ?thesis
      by simp
  qed
qed

text \<open>
  \<^verbatim>\<open>order_domain_values\<close> returns the words of the domain, in some order; so the search
  only assigns words of the right length, and on a well-formed crossword with
  node-consistent domains \<^verbatim>\<open>backtrack\<close> and \<^verbatim>\<open>solve\<close> raise no exception.
\<close>

lemma best_value_keys:
  "set (map fst (fold (\<lambda>value bv. AList.update value (0::nat) bv) domain acc)) =
     set domain \<union> set (map fst acc)"
  by (induction domain arbitrary: acc) (auto simp: dom_update)

lemma count_neighbor_words_keys:
  "map fst (count_neighbor_words a best_value ns) = map fst best_value"
proof (induction ns arbitrary: best_value)
  case Nil
  show ?case by simp
next
  case (Cons neighbor rest)
  show ?case
  proof (cases "map_of a neighbor")
    case None
    then show ?thesis
      by (simp add: Cons.IH)
  next
    case (Some neighbor_word)
    show ?thesis
    proof (cases "map_of best_value neighbor_word")
      case None
      with Some show ?thesis
        by (simp add: Cons.IH)
    next
      case (Some n)
      then have "neighbor_word \<in> set (map fst best_value)"
        by (metis map_of_eq_None_iff option.distinct(1) set_map)
      then have "map fst (AList.update neighbor_word (n + 1) best_value) = map fst best_value"
        by (simp add: update_keys)
      with Some \<open>map_of a neighbor = Some neighbor_word\<close> show ?thesis
        by (simp add: Cons.IH)
    qed
  qed
qed

lemma order_domain_values_returns:
  assumes "map_of (domains s) var = Some domain"
  shows "\<exists>possible_values. order_domain_values s var a = Inr possible_values
           \<and> set possible_values = set domain"
proof -
  let ?best = "fold (\<lambda>value bv. AList.update value (0::nat) bv) domain []"
  let ?counted = "count_neighbor_words a ?best (neighbors (crossword s) var)"
  have "set (map fst (sort_key snd ?counted)) = set (map fst ?counted)"
    by simp
  also have "\<dots> = set (map fst ?best)"
    by (simp only: count_neighbor_words_keys)
  also have "\<dots> = set domain"
    by (simp only: best_value_keys) simp
  finally show ?thesis
    using assms by (simp add: order_domain_values_def Let_def)
qed

lemma first_result_returns:
  assumes "\<forall>v \<in> set vs. \<forall>h. \<exists>r. f v h = Inr r"
  shows "\<exists>r. first_result f vs g = Inr r"
  using assms
proof (induction vs arbitrary: g)
  case Nil
  show ?case by simp
next
  case (Cons v vs)
  from Cons.prems obtain r h where r: "f v g = Inr (r, h)"
    by fastforce
  from Cons.prems have "\<forall>v \<in> set vs. \<forall>h. \<exists>r. f v h = Inr r"
    by simp
  from Cons.IH [OF this, of h] r show ?case
    by (cases r) auto
qed

lemma backtrack_returns:
  assumes "slot_model_ok (crossword s)" "node_consistent s" "assignment_fits s a"
  shows "\<exists>r. backtrack s a g = Inr r"
  using assms
proof (induction s a g rule: backtrack.induct)
  case (1 s a g)
  show ?case
  proof (cases "assignment_complete s a")
    case True
    from consistent_returns [OF "1.prems"(1) True "1.prems"(3)] obtain b where
      "consistent s a = Inr b"
      by blast
    with True show ?thesis
      by (simp add: backtrack.simps [of s a g])
  next
    case False
    then have rem: "unassigned s a \<noteq> []"
      by (auto simp: assignment_complete_def unassigned_def list_all_iff filter_empty_conv)
    have keys: "\<forall>v \<in> set (unassigned s a). map_of (domains s) v \<noteq> None"
      using node_consistent_lookup [OF "1.prems"(2)] by (fastforce simp: unassigned_def)
    from select_unassigned_variable_returns [OF rem keys] obtain treated_var g1 where
      sel: "select_unassigned_variable s a g = Inr (treated_var, g1)"
      by blast
    from select_unassigned_variable_remaining [OF sel] have
      tv: "treated_var \<in> set (variables (crossword s))"
      by simp
    from node_consistent_lookup [OF "1.prems"(2) tv] obtain domain where
      dom: "map_of (domains s) treated_var = Some domain" and
      len: "\<forall>w \<in> set domain. int (length w) = variable_length treated_var"
      by blast
    from order_domain_values_returns [OF dom] obtain possible_values where
      ord: "order_domain_values s treated_var a = Inr possible_values" and
      vals: "set possible_values = set domain"
      by blast
    have "\<exists>r. backtrack s (AList.update treated_var possible_value a) h = Inr r"
      if v: "possible_value \<in> set possible_values" for possible_value h
    proof (rule "1.IH" [OF False sel refl ord v "1.prems"(1,2)])
      show "assignment_fits s (AList.update treated_var possible_value a)"
        using "1.prems"(3) tv len v vals
          set_update_subset [of treated_var possible_value a]
        unfolding assignment_fits_def by fastforce
    qed
    then have "\<exists>r. first_result
                 (\<lambda>possible_value. backtrack s (AList.update treated_var possible_value a))
                 possible_values g1 = Inr r"
      by (intro first_result_returns) blast
    with False sel ord show ?thesis
      by (simp add: backtrack.simps [of s a g])
  qed
qed

lemma solve_returns:
  assumes "slot_model_ok (crossword s)" "map fst (domains s) = variables (crossword s)"
  shows "\<exists>result s'. solve s g = Some (Inr (result, s'))"
proof -
  let ?s1 = "enforce_node_consistency s"
  have cw1: "crossword ?s1 = crossword s"
    by (simp add: enforce_node_consistency_def)
  have nc1: "node_consistent ?s1"
    using assms(2) by (rule node_consistent_enforce_keys)
  have ok1: "slot_model_ok (crossword ?s1)"
    using assms(1) by (simp only: cw1)
  from ac3_returns [OF ok1 nc1] obtain b s2 where
    ac3: "ac3 ?s1 None = Some (Inr (b, s2))" and nc2: "node_consistent s2" and
    cw2: "crossword s2 = crossword ?s1"
    by blast
  have ok2: "slot_model_ok (crossword s2)"
    using ok1 by (simp only: cw2)
  have "assignment_fits s2 []"
    by (simp add: assignment_fits_def)
  from backtrack_returns [OF ok2 nc2 this, of g] obtain result g' where
    "backtrack s2 [] g = Inr (result, g')"
    by fastforce
  with ac3 show ?thesis
    by (simp add: solve_def)
qed


lemma solve_Some_consistent:
  assumes "solve s g = Some (Inr (Some a, s'))"
  shows "distinct (map fst a)
       \<and> (\<forall>var \<in> set (variables (crossword s)). \<exists>word. map_of a var = Some word)
       \<and> consistent s a = Inr True
       \<and> distinct (map snd a)
       \<and> (\<forall>(var, word) \<in> set a. int (length word) = variable_length var)
       \<and> (\<forall>(var, word) \<in> set a. \<forall>neighbor \<in> set (neighbors (crossword s) var).
            \<exists>neighbor_word var_i neighbor_i.
               map_of a neighbor = Some neighbor_word
             \<and> overlaps (crossword s) (var, neighbor) = Some (Some (var_i, neighbor_i))
             \<and> var_i < length word \<and> neighbor_i < length neighbor_word
             \<and> word ! var_i = neighbor_word ! neighbor_i)"
proof -
  from assms obtain arc_consistent g' where
    ac3: "ac3 (enforce_node_consistency s) None = Some (Inr (arc_consistent, s'))" and
    bt: "backtrack s' [] g = Inr (Some a, g')"
    by (auto simp: solve_def split: option.splits sum.splits)
  have cw: "crossword s' = crossword s"
    using ac3_loop_crossword [OF ac3 [unfolded ac3_def]]
    by (simp add: enforce_node_consistency_def)
  from backtrack_result [OF bt] have
    complete: "assignment_complete s' a" and
    cons: "consistent s' a = Inr True" and
    keys: "distinct (map fst a)"
    by simp_all
  have cons': "consistent s a = Inr True"
    using cons consistent_crossword [OF cw, of a] by simp
  have "\<forall>var \<in> set (variables (crossword s)). \<exists>word. map_of a var = Some word"
    using complete
    by (auto simp: assignment_complete_def cw list_all_iff weak_map_of_SomeI)
  with keys cons' consistent_True [OF cons'] show ?thesis
    by simp
qed


text \<open>The run of \<^verbatim>\<open>solve\<close> on the crossing grid, with a generator of zeros.\<close>

lemma cross_ac3:
  "ac3 cross_creator None =
     Some (Inr (True, cross_creator\<lparr>domains := [(slot_across, [''CAT'']), (slot_down, [''ARE''])]\<rparr>))"
  by (simp add: ac3_def all_arcs_def ac3_loop_Cons ac3_loop_Nil revise_def
      cross_creator_domains cross_creator_crossword cross_grid_fields cross_neighbors_def
      cross_overlaps_def slots_differ)

lemma cross_backtrack:
  "backtrack (cross_creator\<lparr>domains := [(slot_across, [''CAT'']), (slot_down, [''ARE''])]\<rparr>) [] (\<lambda>_. 0) =
     Inr (Some [(slot_across, ''CAT''), (slot_down, ''ARE'')], \<lambda>_. 0)"
  by (simp add: backtrack.simps assignment_complete_def select_unassigned_variable_def
      order_domain_values_def random_choice_def consistent_def
      cross_creator_crossword cross_grid_fields cross_neighbors_def
      cross_overlaps_def slots_differ)
    (simp add: slot_across_def slot_down_def)

text \<open>
  C5. An assignment returned by \<^verbatim>\<open>solve\<close> has one entry for every slot of the
  crossword (and no key twice), and \<^verbatim>\<open>consistent\<close> is true on it: its words are
  pairwise distinct, every word has the length of its slot, and for every slot and every
  neighbour of it the two words have the same letter at the positions of their overlap.
  The only other value that \<^verbatim>\<open>solve\<close> returns is \<^verbatim>\<open>None\<close>; and on a well-formed
  crossword, with one domain for every variable, \<^verbatim>\<open>solve\<close> does return: it neither
  raises an exception nor runs forever.
\<close>

theorem solve_result_consistent:
  "(solve s g = Some (Inr (Some a, s')) \<longrightarrow>
       distinct (map fst a)
     \<and> (\<forall>var \<in> set (variables (crossword s)). \<exists>word. map_of a var = Some word)
     \<and> consistent s a = Inr True
     \<and> distinct (map snd a)
     \<and> (\<forall>(var, word) \<in> set a. int (length word) = variable_length var)
     \<and> (\<forall>(var, word) \<in> set a. \<forall>neighbor \<in> set (neighbors (crossword s) var).
          \<exists>neighbor_word var_i neighbor_i.
             map_of a neighbor = Some neighbor_word
           \<and> overlaps (crossword s) (var, neighbor) = Some (Some (var_i, neighbor_i))
           \<and> var_i < length word \<and> neighbor_i < length neighbor_word
           \<and> word ! var_i = neighbor_word ! neighbor_i))
   \<and> (slot_model_ok (crossword s) \<and> map fst (domains s) = variables (crossword s) \<longrightarrow>
        (\<exists>result s'. solve s g = Some (Inr (result, s'))))"
proof (rule conjI)
  show "solve s g = Some (Inr (Some a, s')) \<longrightarrow>
       distinct (map fst a)
     \<and> (\<forall>var \<in> set (variables (crossword s)). \<exists>word. map_of a var = Some word)
     \<and> consistent s a = Inr True
     \<and> distinct (map snd a)
     \<and> (\<forall>(var, word) \<in> set a. int (length word) = variable_length var)
     \<and> (\<forall>(var, word) \<in> set a. \<forall>neighbor \<in> set (neighbors (crossword s) var).
          \<exists>neighbor_word var_i neighbor_i.
             map_of a neighbor = Some neighbor_word
           \<and> overlaps (crossword s) (var, neighbor) = Some (Some (var_i, neighbor_i))
           \<and> var_i < length word \<and> neighbor_i < length neighbor_word
           \<and> word ! var_i = neighbor_word ! neighbor_i)"
    by (rule impI) (erule solve_Some_consistent)
  show "slot_model_ok (crossword s) \<and> map fst (domains s) = variables (crossword s) \<longrightarrow>
        (\<exists>result s'. solve s g = Some (Inr (result, s')))"
    using solve_returns by blast
qed

theorem solve_result_consistent_witness:
  "slot_model_ok (crossword (init cross_grid))
   \<and> map fst (domains (init cross_grid)) = variables (crossword (init cross_grid))
   \<and> solve (init cross_grid) (\<lambda>_. 0) =
       Some (Inr (Some [(slot_across, ''CAT''), (slot_down, ''ARE'')],
                  cross_creator\<lparr>domains := [(slot_across, [''CAT'']), (slot_down, [''ARE''])]\<rparr>))
   \<and> consistent (init cross_grid) [(slot_across, ''CAT''), (slot_down, ''ARE'')] = Inr True
   \<and> distinct (map snd [(slot_across, ''CAT''), (slot_down, ''ARE'')])"
proof -
  have ok: "slot_model_ok (crossword (init cross_grid))"
    using cross_grid_ok by (simp add: init_def)
  have keys: "map fst (domains (init cross_grid)) = variables (crossword (init cross_grid))"
    by (simp add: init_def comp_def)
  have run: "solve (init cross_grid) (\<lambda>_. 0) =
     Some (Inr (Some [(slot_across, ''CAT''), (slot_down, ''ARE'')],
                cross_creator\<lparr>domains := [(slot_across, [''CAT'']), (slot_down, [''ARE''])]\<rparr>))"
    using cross_ac3 cross_backtrack by (simp add: solve_def cross_creator_def)
  from solve_result_consistent [of "init cross_grid" "\<lambda>_. 0"
      "[(slot_across, ''CAT''), (slot_down, ''ARE'')]"
      "cross_creator\<lparr>domains := [(slot_across, [''CAT'']), (slot_down, [''ARE''])]\<rparr>"]
    ok keys run
  show ?thesis
    by simp
qed


end
